theory Spec2Isabelle
  imports Complex_Main
begin

section \<open>The page annotation overlay (page-annotation-view.ts)\<close>

text \<open>
  A shallow embedding of the class \<open>PageAnnotationView\<close>. The class is asynchronous:
  \<open>appendAsync\<close> and \<open>renderAnnotationsAsync\<close> suspend at every \<open>await\<close>, and the
  caller may invoke \<open>remove\<close> or \<open>destroy\<close> while they are suspended. Each piece of code
  that runs without suspension is one HOL function on the state, and the scheduler's
  choices (which promise settles next, which method the caller invokes next) are the
  events of a step function.
\<close>

subsection \<open>Data\<close>

text \<open>Object identities: annotation entities, DOM fragments produced by entities, hosts.\<close>

type_synonym annot_id = nat
type_synonym fragment = nat
type_synonym host = nat

text \<open>
  What a closure stored in a callback slot does when invoked: it dispatches an
  \<open>AnnotSelectionRequestEvent\<close> or an \<open>AnnotFocusRequestEvent\<close> with the given
  annotation (lines 109-117).
\<close>

datatype callback = SelectionRequest annot_id | FocusRequest "annot_id option"

record AnnotationRenderResult =
  controls :: fragment
  content :: fragment

record RenderableAnnotation =
  deleted :: bool
  lastRenderResult :: "AnnotationRenderResult option"
  onPointerDownAction :: "callback option"
  onPointerEnterAction :: "callback option"
  onPointerLeaveAction :: "callback option"

text \<open>
  The document service, as far as the overlay touches it: the entities it owns (a store
  from identities to objects, since the overlay writes their callback slots) and the
  selection set by \<open>setSelectedAnnotation\<close>.
\<close>

record DocumentService =
  entities :: "annot_id \<Rightarrow> RenderableAnnotation"
  selectedAnnotation :: "annot_id option"

record PageInfo =
  page_id :: nat

record Vec2 =
  vec_x :: real
  vec_y :: real

text \<open>
  The DOM. The container \<open>div\<close> has child nodes (fragments, and the svg surface once it
  is appended), a \<open>touchAction\<close> style and at most one parent; the svg surface has
  fragments as children. The field \<open>_container\<close> is a reference that \<open>destroy\<close> sets to
  null; the element itself lives on in \<open>div_el\<close>.
\<close>

datatype node = SvgNode | Fragment fragment

record HTMLDivElement =
  children :: "node list"
  touchAction :: string
  parent :: "host option"

datatype element_ref = Div

datatype error =
    RequiredArgumentNotFound  \<comment> \<open>\<open>new Error("Required argument not found")\<close>, line 27\<close>
  | TypeError                 \<comment> \<open>a property read or method call on null\<close>
  | Rejection nat             \<comment> \<open>the reason an awaited external promise rejected with\<close>

text \<open>
  A suspended or settled \<open>appendAsync\<close> call together with the render pass it started:
  waiting for the fetch (line 100), waiting for \<open>Promise.all\<close> (line 130, with the reason
  of the first per-annotation task that rejected so far), the pass settled but the
  continuation of \<open>appendAsync\<close> (line 85) not yet run, and \<open>appendAsync\<close> settled.
\<close>

datatype frame =
    AwaitFetch
  | AwaitAll "error option"
  | Returned "error + bool"
  | Settled "error option"

record state =
  docService :: DocumentService
  pageInfo :: PageInfo
  viewbox :: "real \<times> real \<times> real \<times> real"
  rendered :: "annot_id set"
  container :: "element_ref option"
  div_el :: HTMLDivElement
  svg :: "fragment list"
  destroyed :: bool
  frames :: "frame list"
  tasks :: "(nat \<times> annot_id) list"
  subscribed :: bool
  uncaught :: "error list"

text \<open>
  \<open>subscribed\<close> tells whether the listener \<open>onAnnotationSelectionChange\<close> of this
  overlay is registered for \<open>annotChangeEvent\<close> on the service's event bus
  (\<open>addListener\<close> and \<open>removeListener\<close>, lines 69 and 90). The listener is created with
  the overlay, so a new overlay is not registered; registering it again when it is
  registered changes nothing, as on a DOM event target.
  \<open>frames\<close> holds one entry per \<open>appendAsync\<close> call that got past line 80, in call
  order. \<open>tasks\<close> holds the \<open>processAnnotation\<close> calls suspended at
  \<open>await annotation.renderAsync(...)\<close>: the pass they belong to and their annotation.
  \<open>uncaught\<close> collects exceptions thrown out of the bus listener.
\<close>

subsection \<open>DOM operations\<close>

text \<open>\<open>append\<close> moves a node: it leaves its old place and becomes the last child.\<close>

definition dom_remove :: "'a \<Rightarrow> 'a list \<Rightarrow> 'a list" where
  "dom_remove n ns = filter (\<lambda>m. m \<noteq> n) ns"

definition dom_append :: "'a \<Rightarrow> 'a list \<Rightarrow> 'a list" where
  "dom_append n ns = dom_remove n ns @ [n]"

definition svg_append :: "fragment \<Rightarrow> state \<Rightarrow> state" where
  "svg_append f s =
     s\<lparr>svg := dom_append f (svg s),
       div_el := (div_el s)\<lparr>children := dom_remove (Fragment f) (children (div_el s))\<rparr>\<rparr>"

definition container_append :: "node \<Rightarrow> state \<Rightarrow> error + state" where
  "container_append n s =
     (case container s of
        None \<Rightarrow> Inl TypeError
      | Some Div \<Rightarrow>
          Inr (s\<lparr>div_el := (div_el s)\<lparr>children := dom_append n (children (div_el s))\<rparr>,
                 svg := (case n of SvgNode \<Rightarrow> svg s | Fragment f \<Rightarrow> dom_remove f (svg s))\<rparr>))"

text \<open>\<open>this._container?.remove()\<close>: nothing when the reference is null.\<close>

definition container_remove :: "state \<Rightarrow> state" where
  "container_remove s =
     (case container s of
        None \<Rightarrow> s
      | Some Div \<Rightarrow> s\<lparr>div_el := (div_el s)\<lparr>parent := None\<rparr>\<rparr>)"

definition set_entities :: "(annot_id \<Rightarrow> RenderableAnnotation) \<Rightarrow> state \<Rightarrow> state" where
  "set_entities h s = s\<lparr>docService := (docService s)\<lparr>entities := h\<rparr>\<rparr>"

definition entity :: "state \<Rightarrow> annot_id \<Rightarrow> RenderableAnnotation" where
  "entity s a = entities (docService s) a"

subsection \<open>The methods\<close>

text \<open>
  Lines 25-49. The three arguments are objects or null/undefined, so \<open>!x\<close> holds exactly
  for a missing one. The pointer-down listener installed on the svg surface is the event
  \<open>SvgPointerDown\<close> below.
\<close>

definition "constructor" ::
  "DocumentService option \<Rightarrow> PageInfo option \<Rightarrow> Vec2 option \<Rightarrow> error + state" where
  "constructor docService' pageInfo' pageDimensions =
     (if docService' = None \<or> pageInfo' = None \<or> pageDimensions = None
      then Inl RequiredArgumentNotFound
      else Inr \<lparr>docService = the docService',
                pageInfo = the pageInfo',
                viewbox = (0, 0, vec_x (the pageDimensions), vec_y (the pageDimensions)),
                rendered = {},
                container = Some Div,
                div_el = \<lparr>children = [], touchAction = [], parent = None\<rparr>,
                svg = [],
                destroyed = False,
                frames = [],
                tasks = [],
                subscribed = False,
                uncaught = []\<rparr>)"

text \<open>Lines 67-70.\<close>

definition remove :: "state \<Rightarrow> state" where
  "remove s = (container_remove s)\<lparr>subscribed := False\<rparr>"

definition clear_callbacks :: "RenderableAnnotation \<Rightarrow> RenderableAnnotation" where
  "clear_callbacks x =
     x\<lparr>onPointerDownAction := None, onPointerEnterAction := None, onPointerLeaveAction := None\<rparr>"

text \<open>Lines 52-64.\<close>

definition destroy :: "state \<Rightarrow> state" where
  "destroy s =
     (let s1 = s\<lparr>destroyed := True\<rparr>;
          s2 = remove s1;
          s3 = s2\<lparr>container := None\<rparr>;
          s4 = set_entities
                 (\<lambda>a. if a \<in> rendered s3 then clear_callbacks (entity s3 a) else entity s3 a) s3
      in s4\<lparr>rendered := {}\<rparr>)"

text \<open>Lines 140-143. The first assignment throws on a null container.\<close>

definition clear :: "state \<Rightarrow> error + state" where
  "clear s =
     (case container s of
        None \<Rightarrow> Inl TypeError
      | Some Div \<Rightarrow> Inr (s\<lparr>div_el := (div_el s)\<lparr>children := []\<rparr>, svg := []\<rparr>))"

text \<open>
  Lines 93-100, up to the first \<open>await\<close>: the frame the pass is left in, and the state.
\<close>

definition renderAnnotationsAsync :: "state \<Rightarrow> frame \<times> state" where
  "renderAnnotationsAsync s =
     (if destroyed s then (Returned (Inr False), s)
      else (case clear s of
              Inl e \<Rightarrow> (Returned (Inl e), s)
            | Inr s' \<Rightarrow> (AwaitFetch, s')))"

text \<open>
  Lines 77-84, up to the \<open>await\<close>. \<open>parent.append(null)\<close> would add a text node to the
  host, which is outside the DOM kept here, and leaves the container where it is.
\<close>

definition appendAsync :: "host \<Rightarrow> state \<Rightarrow> state" where
  "appendAsync parent' s =
     (if destroyed s then s
      else
        let s1 = (case container s of
                    None \<Rightarrow> s
                  | Some Div \<Rightarrow> s\<lparr>div_el := (div_el s)\<lparr>parent := Some parent'\<rparr>\<rparr>);
            (f, s2) = renderAnnotationsAsync s1
        in s2\<lparr>frames := frames s2 @ [f]\<rparr>)"

definition install_callbacks :: "annot_id \<Rightarrow> RenderableAnnotation \<Rightarrow> RenderableAnnotation" where
  "install_callbacks a x =
     x\<lparr>onPointerDownAction := Some (SelectionRequest a),
       onPointerEnterAction := Some (FocusRequest (Some a)),
       onPointerLeaveAction := Some (FocusRequest None)\<rparr>"

text \<open>
  Lines 123-127, the end of \<open>processAnnotation\<close>, with the render result it has obtained.
  The result is the exception thrown, if any, and the state reached.
\<close>

definition process_result ::
  "annot_id \<Rightarrow> AnnotationRenderResult option \<Rightarrow> state \<Rightarrow> error option \<times> state" where
  "process_result a renderResult s =
     (case renderResult of
        None \<Rightarrow> (None, s)
      | Some r \<Rightarrow>
          if destroyed s then (None, s)
          else
            let s1 = s\<lparr>rendered := insert a (rendered s)\<rparr>;
                s2 = svg_append (controls r) s1
            in (case container_append (Fragment (content r)) s2 of
                  Inl e \<Rightarrow> (Some e, s2)
                | Inr s3 \<Rightarrow> (None, s3)))"

text \<open>
  Lines 105-121, \<open>processAnnotation\<close> of pass \<open>p\<close> up to its \<open>await\<close>, or to its end when
  the cached result is used and nothing is awaited.
\<close>

definition processAnnotation :: "nat \<Rightarrow> annot_id \<Rightarrow> state \<Rightarrow> error option \<times> state" where
  "processAnnotation p a s =
     (if a \<notin> rendered s then
        (None, (set_entities ((entities (docService s))(a := install_callbacks a (entity s a))) s)
                 \<lparr>tasks := tasks s @ [(p, a)]\<rparr>)
      else
        (case lastRenderResult (entity s a) of
           Some r \<Rightarrow> process_result a (Some r) s
         | None \<Rightarrow> (None, s\<lparr>tasks := tasks s @ [(p, a)]\<rparr>)))"

text \<open>
  Line 130, \<open>annotations.map(x => processAnnotation(x))\<close>: the calls run one after the
  other, each up to its first suspension. The error is that of the first call that threw.
\<close>

fun process_all :: "nat \<Rightarrow> annot_id list \<Rightarrow> state \<Rightarrow> error option \<times> state" where
  "process_all p [] s = (None, s)"
| "process_all p (a # as) s =
     (let (e, s1) = processAnnotation p a s;
          (e', s2) = process_all p as s1
      in (case e of None \<Rightarrow> e' | Some _ \<Rightarrow> e, s2))"

definition set_frame :: "nat \<Rightarrow> frame \<Rightarrow> state \<Rightarrow> state" where
  "set_frame p f s = s\<lparr>frames := (frames s)[p := f]\<rparr>"

datatype fetch_outcome = FetchRejects nat | FetchNull | FetchList "annot_id list"

text \<open>
  Lines 100-130, the continuation of the pass when \<open>getPageAnnotationsAsync\<close> settles.
  \<open>.filter\<close> is called on the awaited value itself, so a null value throws; the
  \<open>|| []\<close> applies to the array \<open>filter\<close> returns, which is never falsy.
\<close>

definition fetch_continuation :: "nat \<Rightarrow> fetch_outcome \<Rightarrow> state \<Rightarrow> state" where
  "fetch_continuation p out s =
     (case out of
        FetchRejects r \<Rightarrow> set_frame p (Returned (Inl (Rejection r))) s
      | FetchNull \<Rightarrow> set_frame p (Returned (Inl TypeError)) s
      | FetchList xs \<Rightarrow>
          let annotations = filter (\<lambda>x. \<not> deleted (entity s x)) xs;
              (rej, s1) = process_all p annotations s
          in set_frame p (AwaitAll rej) s1)"

datatype render_outcome = RenderRejects nat | RenderResolves "AnnotationRenderResult option"

text \<open>A rejected task rejects the \<open>Promise.all\<close> of its pass, if that is still pending.\<close>

definition reject :: "nat \<Rightarrow> error option \<Rightarrow> state \<Rightarrow> state" where
  "reject p e s =
     (case e of
        None \<Rightarrow> s
      | Some x \<Rightarrow>
          if p < length (frames s) \<and> frames s ! p = AwaitAll None
          then set_frame p (AwaitAll (Some x)) s else s)"

definition remove_nth :: "nat \<Rightarrow> 'a list \<Rightarrow> 'a list" where
  "remove_nth k xs = take k xs @ drop (Suc k) xs"

text \<open>
  Lines 118/120 to 127: the continuation of the \<open>k\<close>-th suspended \<open>processAnnotation\<close>
  when the entity's \<open>renderAsync\<close> settles.
\<close>

definition render_continuation :: "nat \<Rightarrow> render_outcome \<Rightarrow> state \<Rightarrow> state" where
  "render_continuation k out s =
     (let (p, a) = tasks s ! k;
          s0 = s\<lparr>tasks := remove_nth k (tasks s)\<rparr>;
          (e, s1) = (case out of
                       RenderRejects r \<Rightarrow> (Some (Rejection r), s0)
                     | RenderResolves renderResult \<Rightarrow> process_result a renderResult s0)
      in reject p e s1)"

text \<open>Lines 130-137, the continuation of the pass when \<open>Promise.all\<close> settles.\<close>

definition all_continuation :: "nat \<Rightarrow> error option \<Rightarrow> state \<Rightarrow> state" where
  "all_continuation p rej s =
     (case rej of
        Some e \<Rightarrow> set_frame p (Returned (Inl e)) s
      | None \<Rightarrow>
          if destroyed s then set_frame p (Returned (Inr False)) s
          else (case container_append SvgNode s of
                  Inl e \<Rightarrow> set_frame p (Returned (Inl e)) s
                | Inr s' \<Rightarrow> set_frame p (Returned (Inr True)) s'))"

text \<open>Lines 84-90, the continuation of \<open>appendAsync\<close> when the pass has settled.\<close>

definition appendAsync_continuation :: "nat \<Rightarrow> error + bool \<Rightarrow> state \<Rightarrow> state" where
  "appendAsync_continuation p res s =
     (case res of
        Inl e \<Rightarrow> set_frame p (Settled (Some e)) s
      | Inr renderResult \<Rightarrow>
          if \<not> renderResult then set_frame p (Settled None) (container_remove s)
          else set_frame p (Settled None) (s\<lparr>subscribed := True\<rparr>))"

record AnnotEventDetail =
  detail_type :: string
  annotations :: "annot_id list option"

text \<open>Lines 145-154.\<close>

definition onAnnotationSelectionChange :: "AnnotEventDetail \<Rightarrow> state \<Rightarrow> state" where
  "onAnnotationSelectionChange e s =
     (if \<not> destroyed s \<and> detail_type e = ''select'' then
        (case container s of
           None \<Rightarrow> s\<lparr>uncaught := uncaught s @ [TypeError]\<rparr>
         | Some Div \<Rightarrow>
             s\<lparr>div_el := (div_el s)\<lparr>touchAction :=
                  (if annotations e \<noteq> None \<and> the (annotations e) \<noteq> [] then ''none'' else [])\<rparr>\<rparr>)
      else s)"

subsection \<open>Executions\<close>

text \<open>
  The events: the caller invokes a public method; an awaited promise settles and its
  continuation runs; the bus delivers an \<open>annotChangeEvent\<close>; a pointer-down reaches the
  svg surface (lines 44-48); the document service changes the data fields of an entity
  it owns. The document service, the entities and the bus are external: the fetch
  resolves with a list or with null, or rejects; \<open>renderAsync\<close> resolves with a result
  or with null, or rejects; and whatever they change in the fields the overlay reads
  (\<open>deleted\<close>, \<open>lastRenderResult\<close>) is an event of its own, between two pieces of overlay
  code.
\<close>

datatype event =
    CallAppendAsync host
  | CallRemove
  | CallDestroy
  | FetchSettles nat fetch_outcome
  | RenderSettles nat render_outcome
  | AllSettles nat
  | AppendResumes nat
  | BusDispatches AnnotEventDetail
  | SvgPointerDown bool
  | EntityChanges annot_id bool "AnnotationRenderResult option"

text \<open>
  One step. \<open>None\<close> means the event cannot happen in this state: no such frame or task
  is waiting for it. \<open>Promise.all\<close> settles once a task of the pass has rejected or none
  of its tasks is pending any more.
\<close>

fun step :: "state \<Rightarrow> event \<Rightarrow> state option" where
  "step s (CallAppendAsync h) = Some (appendAsync h s)"
| "step s CallRemove = Some (remove s)"
| "step s CallDestroy = Some (destroy s)"
| "step s (FetchSettles p out) =
     (if p < length (frames s) \<and> frames s ! p = AwaitFetch
      then Some (fetch_continuation p out s) else None)"
| "step s (RenderSettles k out) =
     (if k < length (tasks s) then Some (render_continuation k out s) else None)"
| "step s (AllSettles p) =
     (if p < length (frames s) then
        (case frames s ! p of
           AwaitAll rej \<Rightarrow>
             if rej \<noteq> None \<or> list_all (\<lambda>t. fst t \<noteq> p) (tasks s)
             then Some (all_continuation p rej s) else None
         | _ \<Rightarrow> None)
      else None)"
| "step s (AppendResumes p) =
     (if p < length (frames s) then
        (case frames s ! p of
           Returned res \<Rightarrow> Some (appendAsync_continuation p res s)
         | _ \<Rightarrow> None)
      else None)"
| "step s (BusDispatches e) =
     (if subscribed s then Some (onAnnotationSelectionChange e s) else Some s)"
| "step s (SvgPointerDown target_is_svg) =
     (if target_is_svg
      then Some (s\<lparr>docService := (docService s)\<lparr>selectedAnnotation := None\<rparr>\<rparr>)
      else Some s)"
| "step s (EntityChanges a d c) =
     Some (set_entities
             ((entities (docService s))(a := (entity s a)\<lparr>deleted := d, lastRenderResult := c\<rparr>)) s)"

fun run :: "state \<Rightarrow> event list \<Rightarrow> state option" where
  "run s [] = Some s"
| "run s (e # es) = (case step s e of None \<Rightarrow> None | Some s' \<Rightarrow> run s' es)"

subsection \<open>Observations on states and executions\<close>

text \<open>
  The state \<open>destroy\<close> leaves behind: the flag set, the container reference released,
  nothing tracked.
\<close>

definition released :: "state \<Rightarrow> bool" where
  "released s \<longleftrightarrow> destroyed s \<and> container s = None \<and> rendered s = {}"

text \<open>
  The relation between the destroyed flag and the container reference that every state
  of an overlay satisfies from its construction on.
\<close>

definition consistent :: "state \<Rightarrow> bool" where
  "consistent s \<longleftrightarrow>
     (if destroyed s
      then container s = None \<and> rendered s = {} \<and> parent (div_el s) = None
      else container s = Some Div)"

text \<open>The three callback slots of an entity hold the closures of lines 109-117.\<close>

definition callbacks_installed :: "state \<Rightarrow> annot_id \<Rightarrow> bool" where
  "callbacks_installed s a \<longleftrightarrow>
     onPointerDownAction (entity s a) = Some (SelectionRequest a) \<and>
     onPointerEnterAction (entity s a) = Some (FocusRequest (Some a)) \<and>
     onPointerLeaveAction (entity s a) = Some (FocusRequest None)"

definition callbacks_cleared :: "state \<Rightarrow> annot_id \<Rightarrow> bool" where
  "callbacks_cleared s a \<longleftrightarrow>
     onPointerDownAction (entity s a) = None \<and>
     onPointerEnterAction (entity s a) = None \<and>
     onPointerLeaveAction (entity s a) = None"

text \<open>
  Until \<open>destroy\<close>, every tracked entity and every entity whose render is awaited has
  its callbacks installed.
\<close>

definition tracked_installed :: "state \<Rightarrow> bool" where
  "tracked_installed s \<longleftrightarrow>
     destroyed s \<or> (\<forall>a \<in> rendered s \<union> snd ` set (tasks s). callbacks_installed s a)"

text \<open>The annotations a fetch delivers, those delivered so far, and the latest delivery.\<close>

fun fetched_by :: "event \<Rightarrow> annot_id set" where
  "fetched_by (FetchSettles p (FetchList xs)) = set xs"
| "fetched_by _ = {}"

fun fetched_ever :: "event list \<Rightarrow> annot_id set" where
  "fetched_ever [] = {}"
| "fetched_ever (e # es) = fetched_by e \<union> fetched_ever es"

fun last_fetched :: "annot_id list \<Rightarrow> event list \<Rightarrow> annot_id list" where
  "last_fetched cur [] = cur"
| "last_fetched cur (FetchSettles p (FetchList xs) # es) = last_fetched xs es"
| "last_fetched cur (e # es) = last_fetched cur es"



text \<open>
  A fragment is a child of the svg surface or of the container; and the render result
  \<open>processAnnotation\<close> takes from the cache of an entity: the \<open>lastRenderResult\<close> of a
  tracked entity (line 120), nothing for an entity that is not tracked.
\<close>

definition shown :: "state \<Rightarrow> fragment \<Rightarrow> bool" where
  "shown s f \<longleftrightarrow> f \<in> set (svg s) \<or> Fragment f \<in> set (children (div_el s))"

definition cached_result :: "state \<Rightarrow> annot_id \<Rightarrow> AnnotationRenderResult option" where
  "cached_result s a = (if a \<in> rendered s then lastRenderResult (entity s a) else None)"

subsection \<open>Example inputs\<close>

definition example_entity :: RenderableAnnotation where
  "example_entity =
     \<lparr>deleted = False, lastRenderResult = None, onPointerDownAction = None,
      onPointerEnterAction = None, onPointerLeaveAction = None\<rparr>"

definition example_service :: DocumentService where
  "example_service = \<lparr>entities = (\<lambda>_. example_entity), selectedAnnotation = None\<rparr>"

definition example_page :: PageInfo where
  "example_page = \<lparr>page_id = 1\<rparr>"

definition example_dimensions :: Vec2 where
  "example_dimensions = \<lparr>vec_x = 600, vec_y = 800\<rparr>"

text \<open>The overlay \<open>new PageAnnotationView(service, page, dimensions)\<close>.\<close>

definition example_overlay :: state where
  "example_overlay =
     \<lparr>docService = example_service,
      pageInfo = example_page,
      viewbox = (0, 0, 600, 800),
      rendered = {},
      container = Some Div,
      div_el = \<lparr>children = [], touchAction = [], parent = None\<rparr>,
      svg = [],
      destroyed = False,
      frames = [],
      tasks = [],
      subscribed = False,
      uncaught = []\<rparr>"

definition result_1 :: AnnotationRenderResult where
  "result_1 = \<lparr>controls = 10, content = 11\<rparr>"

definition result_2 :: AnnotationRenderResult where
  "result_2 = \<lparr>controls = 20, content = 21\<rparr>"

text \<open>
  A first pass over the annotations 1 and 2: up to the point where both renders are
  awaited; up to the point where the pass has returned; and completed.
\<close>

definition pass_started :: "event list" where
  "pass_started = [CallAppendAsync 7, FetchSettles 0 (FetchList [1, 2])]"

definition pass_joined :: "event list" where
  "pass_joined =
     pass_started @
     [RenderSettles 0 (RenderResolves (Some result_1)),
      RenderSettles 0 (RenderResolves (Some result_2)),
      AllSettles 0]"

definition pass_completed :: "event list" where
  "pass_completed = pass_joined @ [AppendResumes 0]"

text \<open>A second \<open>appendAsync\<close> whose fetch delivers annotation 1 only.\<close>

definition second_pass :: "event list" where
  "second_pass = [CallAppendAsync 7, FetchSettles 1 (FetchList [1])]"

text \<open>The same after the document service has marked annotation 2 as deleted.\<close>

definition second_pass_deleted :: "event list" where
  "second_pass_deleted = EntityChanges 2 True None # second_pass"

text \<open>
  A second \<open>appendAsync\<close>, called after annotation 1 has got a cached render result,
  up to its fetch.
\<close>

definition recached :: "event list" where
  "recached = pass_completed @ [EntityChanges 1 False (Some result_1), CallAppendAsync 7]"

text \<open>A pass during which \<open>destroy()\<close> is called, up to the point where it has returned.\<close>

definition destroyed_pass :: "event list" where
  "destroyed_pass =
     [CallAppendAsync 7, FetchSettles 0 (FetchList [1]), CallDestroy,
      RenderSettles 0 (RenderResolves (Some result_1)), AllSettles 0]"

text \<open>
  Two overlapping \<open>appendAsync\<close> calls: the pass of the first returns true, the second
  call starts, \<open>destroy()\<close> is called, the first call resumes, and the pass of the second
  returns false.
\<close>

definition overlapping_calls :: "event list" where
  "overlapping_calls =
     [CallAppendAsync 7, FetchSettles 0 (FetchList []), AllSettles 0,
      CallAppendAsync 7, CallDestroy, AppendResumes 0,
      FetchSettles 1 (FetchList []), AllSettles 1]"

text \<open>The states these executions lead to.\<close>

definition rendering_both :: state where
  "rendering_both = the (run example_overlay pass_started)"

definition tracking_both :: state where
  "tracking_both = the (run example_overlay pass_completed)"

definition destroyed_rendering :: state where
  "destroyed_rendering =
     the (run (destroy rendering_both) [RenderSettles 0 (RenderResolves (Some result_1))])"

definition tracking_cached :: state where
  "tracking_cached = the (run example_overlay recached)"

section \<open>Properties\<close>

subsection \<open>What each piece of code leaves unchanged\<close>

lemma process_result_fields:
  "destroyed (snd (process_result a rr s)) = destroyed s"
  "container (snd (process_result a rr s)) = container s"
  "parent (div_el (snd (process_result a rr s))) = parent (div_el s)"
  "touchAction (div_el (snd (process_result a rr s))) = touchAction (div_el s)"
  "docService (snd (process_result a rr s)) = docService s"
  "frames (snd (process_result a rr s)) = frames s"
  "tasks (snd (process_result a rr s)) = tasks s"
  "subscribed (snd (process_result a rr s)) = subscribed s"
  "uncaught (snd (process_result a rr s)) = uncaught s"
  by (auto simp: process_result_def svg_append_def container_append_def Let_def
      split: option.splits element_ref.splits)

lemma process_result_rendered:
  "rendered (snd (process_result a rr s)) =
     (if rr \<noteq> None \<and> \<not> destroyed s then insert a (rendered s) else rendered s)"
  by (auto simp: process_result_def svg_append_def container_append_def Let_def
      split: option.splits element_ref.splits)

lemma process_result_destroyed: "destroyed s \<Longrightarrow> process_result a rr s = (None, s)"
  by (simp add: process_result_def split: option.splits)

lemma process_result_no_error:
  "container s \<noteq> None \<Longrightarrow> fst (process_result a rr s) = None"
  by (auto simp: process_result_def svg_append_def container_append_def Let_def
      split: option.splits element_ref.splits)

lemma entity_process_result: "entity (snd (process_result a rr s)) b = entity s b"
  by (simp add: entity_def process_result_fields)

lemma processAnnotation_fields:
  "destroyed (snd (processAnnotation p a s)) = destroyed s"
  "container (snd (processAnnotation p a s)) = container s"
  "parent (div_el (snd (processAnnotation p a s))) = parent (div_el s)"
  "touchAction (div_el (snd (processAnnotation p a s))) = touchAction (div_el s)"
  "frames (snd (processAnnotation p a s)) = frames s"
  "subscribed (snd (processAnnotation p a s)) = subscribed s"
  "uncaught (snd (processAnnotation p a s)) = uncaught s"
  "selectedAnnotation (docService (snd (processAnnotation p a s))) = selectedAnnotation (docService s)"
  by (auto simp: processAnnotation_def process_result_fields set_entities_def split: option.splits)

lemma processAnnotation_rendered: "rendered (snd (processAnnotation p a s)) = rendered s"
  by (auto simp: processAnnotation_def process_result_rendered set_entities_def split: option.splits)

lemma processAnnotation_entity:
  "entity (snd (processAnnotation p a s)) b =
     (if a \<notin> rendered s \<and> b = a then install_callbacks a (entity s a) else entity s b)"
  by (auto simp: processAnnotation_def entity_process_result set_entities_def entity_def
      process_result_fields split: option.splits)

lemma processAnnotation_tasks:
  "tasks (snd (processAnnotation p a s)) =
     tasks s @ (if a \<in> rendered s \<and> lastRenderResult (entity s a) \<noteq> None then [] else [(p, a)])"
  by (auto simp: processAnnotation_def process_result_fields set_entities_def split: option.splits)

lemma processAnnotation_destroyed_dom:
  "destroyed s \<Longrightarrow> svg (snd (processAnnotation p a s)) = svg s \<and>
     div_el (snd (processAnnotation p a s)) = div_el s"
  by (auto simp: processAnnotation_def process_result_destroyed set_entities_def split: option.splits)

lemma processAnnotation_no_error:
  "container s \<noteq> None \<Longrightarrow> fst (processAnnotation p a s) = None"
  by (auto simp: processAnnotation_def process_result_no_error split: option.splits)

lemma process_all_fields:
  "destroyed (snd (process_all p xs s)) = destroyed s"
  "container (snd (process_all p xs s)) = container s"
  "parent (div_el (snd (process_all p xs s))) = parent (div_el s)"
  "touchAction (div_el (snd (process_all p xs s))) = touchAction (div_el s)"
  "frames (snd (process_all p xs s)) = frames s"
  "subscribed (snd (process_all p xs s)) = subscribed s"
  "uncaught (snd (process_all p xs s)) = uncaught s"
  "selectedAnnotation (docService (snd (process_all p xs s))) = selectedAnnotation (docService s)"
  "rendered (snd (process_all p xs s)) = rendered s"
  by (induction xs arbitrary: s;
      simp add: processAnnotation_fields processAnnotation_rendered split_beta Let_def)+

lemma install_callbacks_idem [simp]:
  "install_callbacks a (install_callbacks a x) = install_callbacks a x"
  by (simp add: install_callbacks_def)

lemma lastRenderResult_install [simp]:
  "lastRenderResult (install_callbacks a x) = lastRenderResult x"
  "deleted (install_callbacks a x) = deleted x"
  by (simp_all add: install_callbacks_def)

lemma process_all_entity:
  "entity (snd (process_all p xs s)) b =
     (if b \<in> set xs \<and> b \<notin> rendered s then install_callbacks b (entity s b) else entity s b)"
  by (induction xs arbitrary: s)
     (auto simp: processAnnotation_entity processAnnotation_rendered split_beta Let_def)

lemma processAnnotation_data:
  "lastRenderResult (entity (snd (processAnnotation p a s)) b) = lastRenderResult (entity s b)"
  "deleted (entity (snd (processAnnotation p a s)) b) = deleted (entity s b)"
  by (simp_all add: processAnnotation_entity)

lemma process_all_tasks:
  "tasks (snd (process_all p xs s)) =
     tasks s @ map (Pair p)
       (filter (\<lambda>a. \<not> (a \<in> rendered s \<and> lastRenderResult (entity s a) \<noteq> None)) xs)"
  by (induction xs arbitrary: s)
     (simp_all add: processAnnotation_data processAnnotation_rendered processAnnotation_tasks
        split_beta Let_def)

lemma process_all_destroyed_dom:
  "destroyed s \<Longrightarrow> svg (snd (process_all p xs s)) = svg s \<and>
     div_el (snd (process_all p xs s)) = div_el s"
  by (induction xs arbitrary: s)
     (auto simp: processAnnotation_destroyed_dom processAnnotation_fields split_beta Let_def)

lemma process_all_no_error:
  "container s \<noteq> None \<Longrightarrow> fst (process_all p xs s) = None"
  by (induction xs arbitrary: s)
     (auto simp: processAnnotation_no_error processAnnotation_fields split_beta Let_def)

subsection \<open>Evaluating examples\<close>

lemmas eval_defs = example_overlay_def example_service_def example_entity_def
  example_page_def example_dimensions_def result_1_def result_2_def
  pass_started_def pass_joined_def pass_completed_def second_pass_def second_pass_deleted_def
  recached_def destroyed_pass_def rendering_both_def tracking_both_def destroyed_rendering_def
  tracking_cached_def overlapping_calls_def
  appendAsync_def renderAnnotationsAsync_def clear_def fetch_continuation_def
  processAnnotation_def process_result_def set_frame_def entity_def set_entities_def
  install_callbacks_def render_continuation_def remove_nth_def reject_def svg_append_def
  container_append_def dom_append_def dom_remove_def all_continuation_def
  appendAsync_continuation_def destroy_def remove_def container_remove_def clear_callbacks_def
  callbacks_installed_def callbacks_cleared_def Let_def

lemma example_constructed:
  "constructor (Some example_service) (Some example_page) (Some example_dimensions) =
     Inr example_overlay"
  by (simp add: constructor_def example_overlay_def example_dimensions_def)

lemma rendering_both_facts:
  "tasks rendering_both = [(0, 1), (0, 2)]"
  "svg rendering_both = []"
  "children (div_el rendering_both) = []"
  by (simp_all add: eval_defs)

lemma run_pass_completed: "run example_overlay pass_completed = Some tracking_both"
  by (simp add: eval_defs)

lemma tracking_both_facts:
  "rendered tracking_both = {1, 2}"
  "callbacks_installed tracking_both 1"
  "callbacks_installed tracking_both 2"
  by (simp_all add: eval_defs insert_commute)

lemma run_destroyed_rendering:
  "run (destroy rendering_both) [RenderSettles 0 (RenderResolves (Some result_1))] =
     Some destroyed_rendering"
  by (simp add: eval_defs)

lemma destroyed_rendering_facts:
  "tasks destroyed_rendering = [(0, 2)]"
  by (simp add: eval_defs)

lemma run_second_pass:
  "run example_overlay (pass_completed @ second_pass) \<noteq> None"
  "run example_overlay (pass_completed @ [CallDestroy]) \<noteq> None"
  by (simp_all add: eval_defs)

lemma run_second_pass_deleted:
  "run tracking_both second_pass_deleted \<noteq> None"
  "deleted (entity (the (run tracking_both second_pass_deleted)) 2)"
  "2 \<notin> fetched_ever second_pass_deleted"
  "CallDestroy \<notin> set second_pass_deleted"
  by (simp_all add: eval_defs)


lemma tracking_cached_facts:
  "1 \<in> rendered tracking_cached"
  "2 \<in> rendered tracking_cached"
  "lastRenderResult (entity tracking_cached 1) = Some result_1"
  "lastRenderResult (entity tracking_cached 2) = None"
  "tasks tracking_cached = []"
  "step tracking_cached (FetchSettles 1 (FetchList [1, 2])) \<noteq> None"
  "\<not> destroyed tracking_cached"
  "container tracking_cached = Some Div"
  by (simp_all add: eval_defs)

subsection \<open>After destruction\<close>

lemma released_destroy: "released (destroy s)"
  by (simp add: released_def destroy_def Let_def set_entities_def remove_def container_remove_def
      split: option.splits element_ref.splits)

lemma released_step:
  assumes "released s" and "step s e = Some s'"
  shows "released s' \<and> svg s' = svg s \<and> div_el s' = div_el s \<and> uncaught s' = uncaught s"
proof (cases e)
  case (CallAppendAsync h)
  with assms show ?thesis by (simp add: released_def appendAsync_def)
next
  case CallRemove
  with assms show ?thesis by (auto simp: released_def remove_def container_remove_def)
next
  case CallDestroy
  with assms show ?thesis
    by (auto simp: released_def destroy_def Let_def set_entities_def remove_def container_remove_def)
next
  case (FetchSettles p out)
  with assms show ?thesis
    by (cases out)
       (auto simp: released_def fetch_continuation_def set_frame_def split_beta Let_def
          process_all_fields process_all_destroyed_dom split: if_splits)
next
  case (RenderSettles k out)
  with assms show ?thesis
    by (cases out)
       (auto simp: released_def render_continuation_def reject_def set_frame_def split_beta Let_def
          process_result_destroyed split: if_splits option.splits)
next
  case (AllSettles p)
  with assms show ?thesis
    by (auto simp: released_def all_continuation_def set_frame_def
        split: if_splits option.splits frame.splits)
next
  case (AppendResumes p)
  with assms show ?thesis
    by (auto simp: released_def appendAsync_continuation_def set_frame_def container_remove_def
        split: if_splits sum.splits frame.splits)
next
  case (BusDispatches d)
  with assms show ?thesis
    by (auto simp: released_def onAnnotationSelectionChange_def split: if_splits)
next
  case (SvgPointerDown b)
  with assms show ?thesis by (auto simp: released_def split: if_splits)
next
  case (EntityChanges a d c)
  with assms show ?thesis by (auto simp: released_def set_entities_def)
qed

lemma released_run:
  "released s \<Longrightarrow> run s tr = Some s' \<Longrightarrow>
     released s' \<and> svg s' = svg s \<and> div_el s' = div_el s \<and> uncaught s' = uncaught s"
proof (induction tr arbitrary: s)
  case Nil
  then show ?case by simp
next
  case (Cons e es)
  from Cons.prems obtain s1 where s1: "step s e = Some s1" and r: "run s1 es = Some s'"
    by (auto split: option.splits)
  from released_step[OF Cons.prems(1) s1] Cons.IH[OF _ r] show ?case by simp
qed

subsection \<open>Invariants of executions\<close>

lemma consistent_constructor: "constructor a b c = Inr s \<Longrightarrow> consistent s"
  by (auto simp: constructor_def consistent_def split: if_splits)

lemma consistent_step:
  assumes "consistent s" and "step s e = Some s'"
  shows "consistent s'"
proof (cases e)
  case (CallAppendAsync h)
  with assms show ?thesis
    by (auto simp: consistent_def appendAsync_def renderAnnotationsAsync_def clear_def
        split: if_splits)
next
  case CallRemove
  with assms show ?thesis
    by (auto simp: consistent_def remove_def container_remove_def split: if_splits)
next
  case CallDestroy
  with assms show ?thesis
    by (auto simp: consistent_def destroy_def Let_def set_entities_def remove_def
        container_remove_def split: if_splits)
next
  case (FetchSettles p out)
  with assms show ?thesis
    by (cases out)
       (auto simp: consistent_def fetch_continuation_def set_frame_def split_beta Let_def
          process_all_fields split: if_splits)
next
  case (RenderSettles k out)
  with assms show ?thesis
    by (cases out)
       (auto simp: consistent_def render_continuation_def reject_def set_frame_def split_beta
          Let_def process_result_fields process_result_rendered split: if_splits option.splits)
next
  case (AllSettles p)
  with assms show ?thesis
    by (auto simp: consistent_def all_continuation_def set_frame_def container_append_def
        split: if_splits option.splits frame.splits)
next
  case (AppendResumes p)
  with assms show ?thesis
    by (auto simp: consistent_def appendAsync_continuation_def set_frame_def container_remove_def
        split: if_splits sum.splits frame.splits)
next
  case (BusDispatches d)
  with assms show ?thesis
    by (auto simp: consistent_def onAnnotationSelectionChange_def split: if_splits)
next
  case (SvgPointerDown b)
  with assms show ?thesis by (auto simp: consistent_def split: if_splits)
next
  case (EntityChanges a d c)
  with assms show ?thesis by (auto simp: consistent_def set_entities_def split: if_splits)
qed

lemma run_Cons_Some:
  "run s (e # es) = Some s' \<Longrightarrow> \<exists>s1. step s e = Some s1 \<and> run s1 es = Some s'"
  by (auto split: option.splits)

lemma consistent_run: "consistent s \<Longrightarrow> run s tr = Some s' \<Longrightarrow> consistent s'"
proof (induction tr arbitrary: s)
  case Nil
  then show ?case by simp
next
  case (Cons e es)
  from run_Cons_Some[OF Cons.prems(2)] obtain s1
    where "step s e = Some s1" and "run s1 es = Some s'" by blast
  with Cons.IH consistent_step[OF Cons.prems(1)] show ?case by blast
qed

text \<open>The destroyed flag is never reset.\<close>

lemma destroyed_step: "destroyed s \<Longrightarrow> step s e = Some s' \<Longrightarrow> destroyed s'"
proof (cases e)
  case (FetchSettles p out)
  assume "destroyed s" "step s e = Some s'"
  with FetchSettles show ?thesis
    by (cases out)
       (auto simp: fetch_continuation_def set_frame_def split_beta Let_def
          process_all_fields split: if_splits)
next
  case (RenderSettles k out)
  assume "destroyed s" "step s e = Some s'"
  with RenderSettles show ?thesis
    by (cases out)
       (auto simp: render_continuation_def reject_def set_frame_def split_beta
          Let_def process_result_fields split: if_splits option.splits)
qed (auto simp: appendAsync_def remove_def container_remove_def destroy_def Let_def set_entities_def
      all_continuation_def set_frame_def appendAsync_continuation_def onAnnotationSelectionChange_def
      split: if_splits option.splits frame.splits sum.splits element_ref.splits)

lemma destroyed_run: "destroyed s \<Longrightarrow> run s tr = Some s' \<Longrightarrow> destroyed s'"
proof (induction tr arbitrary: s)
  case Nil
  then show ?case by simp
next
  case (Cons e es)
  from run_Cons_Some[OF Cons.prems(2)] obtain s1
    where "step s e = Some s1" and "run s1 es = Some s'" by blast
  with Cons.IH destroyed_step[OF Cons.prems(1)] show ?case by blast
qed

lemma destroyed_after_destroy:
  "run s tr = Some s' \<Longrightarrow> CallDestroy \<in> set tr \<Longrightarrow> destroyed s'"
proof (induction tr arbitrary: s)
  case Nil
  then show ?case by simp
next
  case (Cons e es)
  from run_Cons_Some[OF Cons.prems(1)] obtain s1
    where s1: "step s e = Some s1" and r: "run s1 es = Some s'" by blast
  show ?case
  proof (cases "e = CallDestroy")
    case True
    with s1 have "destroyed s1" using released_destroy[of s] by (auto simp: released_def)
    then show ?thesis using r by (rule destroyed_run)
  next
    case False
    with Cons.prems(2) have "CallDestroy \<in> set es" by simp
    with Cons.IH r show ?thesis by blast
  qed
qed

subsection \<open>What has been fetched\<close>

lemma set_remove_nth: "set (remove_nth k xs) \<subseteq> set xs"
  unfolding remove_nth_def by (auto dest: in_set_takeD in_set_dropD)

lemma reject_fields:
  "rendered (reject p e s) = rendered s"
  "tasks (reject p e s) = tasks s"
  "destroyed (reject p e s) = destroyed s"
  "container (reject p e s) = container s"
  "docService (reject p e s) = docService s"
  "div_el (reject p e s) = div_el s"
  "svg (reject p e s) = svg s"
  "subscribed (reject p e s) = subscribed s"
  "uncaught (reject p e s) = uncaught s"
  "length (frames (reject p e s)) = length (frames s)"
  by (simp_all add: reject_def set_frame_def split: option.splits)

lemma render_continuation_fields:
  "tasks (render_continuation k out s) = remove_nth k (tasks s)"
  "destroyed (render_continuation k out s) = destroyed s"
  "container (render_continuation k out s) = container s"
  "docService (render_continuation k out s) = docService s"
  "parent (div_el (render_continuation k out s)) = parent (div_el s)"
  "subscribed (render_continuation k out s) = subscribed s"
  "uncaught (render_continuation k out s) = uncaught s"
  "length (frames (render_continuation k out s)) = length (frames s)"
  by (cases out; simp add: render_continuation_def reject_fields process_result_fields
      split_beta Let_def)+

lemma render_continuation_rendered:
  "rendered (render_continuation k out s) =
     (if (\<exists>r. out = RenderResolves (Some r)) \<and> \<not> destroyed s
      then insert (snd (tasks s ! k)) (rendered s) else rendered s)"
  by (cases out)
     (auto simp: render_continuation_def reject_fields process_result_rendered split_beta Let_def)

lemma fetched_step:
  assumes "rendered s \<subseteq> F \<and> (\<forall>t\<in>set (tasks s). snd t \<in> F)" and "step s e = Some s'"
  shows "rendered s' \<subseteq> F \<union> fetched_by e \<and> (\<forall>t\<in>set (tasks s'). snd t \<in> F \<union> fetched_by e)"
proof (cases e)
  case (CallAppendAsync h)
  with assms show ?thesis
    by (auto simp: appendAsync_def renderAnnotationsAsync_def clear_def
        split: if_splits option.splits element_ref.splits)
next
  case CallRemove
  with assms show ?thesis
    by (auto simp: remove_def container_remove_def split: option.splits element_ref.splits)
next
  case CallDestroy
  with assms show ?thesis
    by (auto simp: destroy_def Let_def set_entities_def remove_def container_remove_def
        split: option.splits element_ref.splits)
next
  case (FetchSettles p out)
  show ?thesis
  proof (cases out)
    case (FetchList xs)
    with FetchSettles assms show ?thesis
      by (auto simp: fetch_continuation_def set_frame_def split_beta Let_def process_all_fields
          process_all_tasks split: if_splits)
  qed (use FetchSettles assms in \<open>auto simp: fetch_continuation_def set_frame_def split: if_splits\<close>)
next
  case (RenderSettles k out)
  with assms have k: "k < length (tasks s)" and s': "s' = render_continuation k out s"
    by (auto split: if_splits)
  obtain p a where pa: "tasks s ! k = (p, a)" by (cases "tasks s ! k")
  with k have "(p, a) \<in> set (tasks s)" by (metis nth_mem)
  with assms(1) have a: "a \<in> F" by auto
  have t: "tasks s' = remove_nth k (tasks s)"
    using s' by (simp add: render_continuation_fields)
  have r: "rendered s' \<subseteq> insert a (rendered s)"
    using s' pa by (auto simp: render_continuation_rendered split: if_splits)
  from t r a assms(1) set_remove_nth[of k "tasks s"] show ?thesis by auto
next
  case (AllSettles p)
  with assms show ?thesis
    by (auto simp: all_continuation_def set_frame_def container_append_def
        split: if_splits option.splits frame.splits element_ref.splits)
next
  case (AppendResumes p)
  with assms show ?thesis
    by (auto simp: appendAsync_continuation_def set_frame_def container_remove_def
        split: if_splits sum.splits frame.splits option.splits element_ref.splits)
next
  case (BusDispatches d)
  with assms show ?thesis
    by (auto simp: onAnnotationSelectionChange_def split: if_splits option.splits element_ref.splits)
next
  case (SvgPointerDown b)
  with assms show ?thesis by (auto split: if_splits)
next
  case (EntityChanges a d c)
  with assms show ?thesis by (auto simp: set_entities_def)
qed

lemma fetched_run:
  "rendered s \<subseteq> F \<and> (\<forall>t\<in>set (tasks s). snd t \<in> F) \<Longrightarrow> run s tr = Some s' \<Longrightarrow>
     rendered s' \<subseteq> F \<union> fetched_ever tr \<and> (\<forall>t\<in>set (tasks s'). snd t \<in> F \<union> fetched_ever tr)"
proof (induction tr arbitrary: s F)
  case Nil
  then show ?case by simp
next
  case (Cons e es)
  from run_Cons_Some[OF Cons.prems(2)] obtain s1
    where s1: "step s e = Some s1" and r: "run s1 es = Some s'" by blast
  from Cons.IH[OF fetched_step[OF Cons.prems(1) s1] r] show ?case
    by (simp add: Un_assoc)
qed

subsection \<open>Tracked entities keep their callbacks\<close>

lemma callbacks_installed_process_all:
  "callbacks_installed (snd (process_all p xs s)) b \<longleftrightarrow>
     (b \<in> set xs \<and> b \<notin> rendered s) \<or> callbacks_installed s b"
  by (auto simp: callbacks_installed_def process_all_entity install_callbacks_def)

text \<open>Every step but \<open>destroy\<close> keeps the tracked entities and their callback slots.\<close>

lemma tracked_mono_step:
  assumes "step s e = Some s'" and "e \<noteq> CallDestroy"
  shows "rendered s \<subseteq> rendered s' \<and> destroyed s' = destroyed s"
proof (cases e)
  case (CallAppendAsync h)
  with assms show ?thesis
    by (auto simp: appendAsync_def renderAnnotationsAsync_def clear_def
        split: if_splits option.splits element_ref.splits)
next
  case CallRemove
  with assms show ?thesis
    by (auto simp: remove_def container_remove_def split: option.splits element_ref.splits)
next
  case CallDestroy
  with assms show ?thesis by simp
next
  case (FetchSettles p out)
  with assms show ?thesis
    by (cases out)
       (auto simp: fetch_continuation_def set_frame_def split_beta Let_def process_all_fields
          split: if_splits)
next
  case (RenderSettles k out)
  with assms show ?thesis
    by (auto simp: render_continuation_fields render_continuation_rendered split: if_splits)
next
  case (AllSettles p)
  with assms show ?thesis
    by (auto simp: all_continuation_def set_frame_def container_append_def
        split: if_splits option.splits frame.splits element_ref.splits)
next
  case (AppendResumes p)
  with assms show ?thesis
    by (auto simp: appendAsync_continuation_def set_frame_def container_remove_def
        split: if_splits sum.splits frame.splits option.splits element_ref.splits)
next
  case (BusDispatches d)
  with assms show ?thesis
    by (auto simp: onAnnotationSelectionChange_def split: if_splits option.splits element_ref.splits)
next
  case (SvgPointerDown b)
  with assms show ?thesis by (auto split: if_splits)
next
  case (EntityChanges a d c)
  with assms show ?thesis by (auto simp: set_entities_def)
qed

lemma tracked_mono_run:
  "run s tr = Some s' \<Longrightarrow> CallDestroy \<notin> set tr \<Longrightarrow>
     rendered s \<subseteq> rendered s' \<and> destroyed s' = destroyed s"
proof (induction tr arbitrary: s)
  case Nil
  then show ?case by simp
next
  case (Cons e es)
  from run_Cons_Some[OF Cons.prems(1)] obtain s1
    where s1: "step s e = Some s1" and r: "run s1 es = Some s'" by blast
  from Cons.prems(2) have ne: "e \<noteq> CallDestroy" and nes: "CallDestroy \<notin> set es" by auto
  from tracked_mono_step[OF s1 ne] Cons.IH[OF r nes] show ?case by auto
qed

lemma tracked_installed_constructor:
  "constructor a b c = Inr s \<Longrightarrow> tracked_installed s"
  by (auto simp: constructor_def tracked_installed_def split: if_splits)

lemma tracked_installed_step:
  assumes "tracked_installed s" and "step s e = Some s'"
  shows "tracked_installed s'"
proof (cases "destroyed s'")
  case True
  then show ?thesis by (simp add: tracked_installed_def)
next
  case nd': False
  show ?thesis
  proof (cases "e = CallDestroy")
    case True
    with assms(2) released_destroy[of s] nd' show ?thesis by (auto simp: released_def)
  next
    case False
    from tracked_mono_step[OF assms(2) False] nd' have nd: "\<not> destroyed s" by simp
    with assms(1) have inst: "\<And>a. a \<in> rendered s \<Longrightarrow> callbacks_installed s a"
      "\<And>t. t \<in> set (tasks s) \<Longrightarrow> callbacks_installed s (snd t)"
      by (auto simp: tracked_installed_def)
    have "(\<forall>a\<in>rendered s'. callbacks_installed s' a) \<and>
          (\<forall>t\<in>set (tasks s'). callbacks_installed s' (snd t))"
    proof (cases e)
      case (CallAppendAsync h)
      with assms(2) inst show ?thesis
        by (auto simp: appendAsync_def renderAnnotationsAsync_def clear_def callbacks_installed_def
            entity_def split: if_splits option.splits element_ref.splits)
    next
      case CallRemove
      with assms(2) inst show ?thesis
        by (auto simp: remove_def container_remove_def callbacks_installed_def
            entity_def split: option.splits element_ref.splits)
    next
      case CallDestroy
      with False show ?thesis by simp
    next
      case (FetchSettles p out)
      show ?thesis
      proof (cases out)
        case (FetchList xs)
        let ?ys = "filter (\<lambda>x. \<not> deleted (entity s x)) xs"
        let ?s1 = "snd (process_all p ?ys s)"
        from FetchSettles FetchList assms(2)
        have s': "s' = set_frame p (AwaitAll (fst (process_all p ?ys s))) ?s1"
          by (auto simp: fetch_continuation_def split_beta Let_def split: if_splits)
        have ci: "\<And>b. callbacks_installed s' b = callbacks_installed ?s1 b"
          unfolding s' by (simp add: callbacks_installed_def entity_def set_frame_def)
        have rs: "rendered s' = rendered s"
          unfolding s' by (simp add: set_frame_def process_all_fields)
        have ts: "tasks s' = tasks s @ map (Pair p)
           (filter (\<lambda>a. \<not> (a \<in> rendered s \<and> lastRenderResult (entity s a) \<noteq> None)) ?ys)"
          unfolding s' by (simp add: set_frame_def process_all_tasks)
        show ?thesis
          using inst by (auto simp: ci rs ts callbacks_installed_process_all)
      qed (use FetchSettles assms(2) inst in
            \<open>auto simp: fetch_continuation_def set_frame_def callbacks_installed_def entity_def
               split: if_splits\<close>)
    next
      case (RenderSettles k out)
      with assms(2) have k: "k < length (tasks s)" and s': "s' = render_continuation k out s"
        by (auto split: if_splits)
      have ci: "\<And>b. callbacks_installed s' b = callbacks_installed s b"
        unfolding s' by (simp add: callbacks_installed_def entity_def render_continuation_fields)
      from k have "tasks s ! k \<in> set (tasks s)" by simp
      with inst(2) have ik: "callbacks_installed s (snd (tasks s ! k))" by blast
      have r: "rendered s' \<subseteq> insert (snd (tasks s ! k)) (rendered s)"
        unfolding s' by (simp add: render_continuation_rendered subset_insertI)
      have t: "set (tasks s') \<subseteq> set (tasks s)"
        unfolding s' by (simp add: render_continuation_fields set_remove_nth)
      from r ik inst(1) have "\<forall>a\<in>rendered s'. callbacks_installed s a" by blast
      moreover from t inst(2) have "\<forall>t\<in>set (tasks s'). callbacks_installed s (snd t)" by blast
      ultimately show ?thesis by (simp add: ci)
    next
      case (AllSettles p)
      with assms(2) inst show ?thesis
        by (auto simp: all_continuation_def set_frame_def container_append_def
            callbacks_installed_def entity_def
            split: if_splits option.splits frame.splits element_ref.splits)
    next
      case (AppendResumes p)
      with assms(2) inst show ?thesis
        by (auto simp: appendAsync_continuation_def set_frame_def container_remove_def
            callbacks_installed_def entity_def
            split: if_splits sum.splits frame.splits option.splits element_ref.splits)
    next
      case (BusDispatches d)
      with assms(2) inst show ?thesis
        by (auto simp: onAnnotationSelectionChange_def callbacks_installed_def entity_def
            split: if_splits option.splits element_ref.splits)
    next
      case (SvgPointerDown b)
      with assms(2) inst show ?thesis
        by (auto simp: callbacks_installed_def entity_def split: if_splits)
    next
      case (EntityChanges a d c)
      with assms(2) inst show ?thesis
        by (auto simp: set_entities_def callbacks_installed_def entity_def)
    qed
    then show ?thesis by (auto simp: tracked_installed_def)
  qed
qed

lemma tracked_installed_run:
  "tracked_installed s \<Longrightarrow> run s tr = Some s' \<Longrightarrow> tracked_installed s'"
proof (induction tr arbitrary: s)
  case Nil
  then show ?case by simp
next
  case (Cons e es)
  from run_Cons_Some[OF Cons.prems(2)] obtain s1
    where "step s e = Some s1" and "run s1 es = Some s'" by blast
  with Cons.IH tracked_installed_step[OF Cons.prems(1)] show ?case by blast
qed

subsection \<open>The bus listener\<close>
















subsection \<open>Cached results in a pass\<close>

lemma process_result_places:
  assumes "\<not> destroyed s" and "container s = Some Div"
  shows "Fragment (content r) \<in> set (children (div_el (snd (process_result a (Some r) s))))"
    and "controls r \<noteq> content r \<Longrightarrow> controls r \<in> set (svg (snd (process_result a (Some r) s)))"
  using assms
  by (auto simp: process_result_def svg_append_def container_append_def dom_append_def
      dom_remove_def Let_def)

lemma process_result_keeps_child:
  assumes "Fragment f \<in> set (children (div_el s))"
    and "\<And>rb. rr = Some rb \<Longrightarrow> controls rb \<noteq> f"
  shows "Fragment f \<in> set (children (div_el (snd (process_result b rr s))))"
  using assms
  by (auto simp: process_result_def svg_append_def container_append_def dom_append_def
      dom_remove_def Let_def split: option.splits element_ref.splits)

lemma process_result_keeps_svg:
  assumes "f \<in> set (svg s)"
    and "\<And>rb. rr = Some rb \<Longrightarrow> content rb \<noteq> f"
  shows "f \<in> set (svg (snd (process_result b rr s)))"
  using assms
  by (auto simp: process_result_def svg_append_def container_append_def dom_append_def
      dom_remove_def Let_def split: option.splits element_ref.splits)

lemma process_result_shown:
  "shown s f \<Longrightarrow> shown (snd (process_result b rr s)) f"
  by (auto simp: shown_def process_result_def svg_append_def container_append_def dom_append_def
      dom_remove_def Let_def split: option.splits element_ref.splits)

lemma process_result_shows:
  assumes "\<not> destroyed s" and "container s = Some Div"
  shows "shown (snd (process_result a (Some r) s)) (content r)"
    and "shown (snd (process_result a (Some r) s)) (controls r)"
  using assms
  by (auto simp: shown_def process_result_def svg_append_def container_append_def dom_append_def
      dom_remove_def Let_def)

lemma processAnnotation_dom:
  "svg (snd (processAnnotation p b s)) = svg (snd (process_result b (cached_result s b) s))"
  "div_el (snd (processAnnotation p b s)) = div_el (snd (process_result b (cached_result s b) s))"
  by (auto simp: processAnnotation_def cached_result_def process_result_def set_entities_def
      split: option.splits)

lemma cached_result_processAnnotation:
  "cached_result (snd (processAnnotation p x s)) b = cached_result s b"
  by (simp add: cached_result_def processAnnotation_rendered processAnnotation_data)

lemma processAnnotation_shown:
  "shown s f \<Longrightarrow> shown (snd (processAnnotation p b s)) f"
  using process_result_shown[of s f b "cached_result s b"]
  by (simp add: shown_def processAnnotation_dom)

lemma process_all_shown:
  "shown s f \<Longrightarrow> shown (snd (process_all p xs s)) f"
  by (induction xs arbitrary: s) (simp_all add: split_beta Let_def processAnnotation_shown)

lemma process_all_keeps_child:
  assumes "Fragment f \<in> set (children (div_el s))"
    and "\<forall>b\<in>set xs. \<forall>rb. cached_result s b = Some rb \<longrightarrow> controls rb \<noteq> f"
  shows "Fragment f \<in> set (children (div_el (snd (process_all p xs s))))"
  using assms
proof (induction xs arbitrary: s)
  case Nil
  then show ?case by simp
next
  case (Cons x xs)
  let ?s1 = "snd (processAnnotation p x s)"
  have "Fragment f \<in> set (children (div_el ?s1))"
    using process_result_keeps_child[OF Cons.prems(1), of "cached_result s x" x] Cons.prems(2)
    by (simp add: processAnnotation_dom)
  moreover have "\<forall>b\<in>set xs. \<forall>rb. cached_result ?s1 b = Some rb \<longrightarrow> controls rb \<noteq> f"
    using Cons.prems(2) by (simp add: cached_result_processAnnotation)
  ultimately show ?case using Cons.IH[of ?s1] by (simp add: split_beta Let_def)
qed

lemma process_all_keeps_svg:
  assumes "f \<in> set (svg s)"
    and "\<forall>b\<in>set xs. \<forall>rb. cached_result s b = Some rb \<longrightarrow> content rb \<noteq> f"
  shows "f \<in> set (svg (snd (process_all p xs s)))"
  using assms
proof (induction xs arbitrary: s)
  case Nil
  then show ?case by simp
next
  case (Cons x xs)
  let ?s1 = "snd (processAnnotation p x s)"
  have "f \<in> set (svg ?s1)"
    using process_result_keeps_svg[OF Cons.prems(1), of "cached_result s x" x] Cons.prems(2)
    by (simp add: processAnnotation_dom)
  moreover have "\<forall>b\<in>set xs. \<forall>rb. cached_result ?s1 b = Some rb \<longrightarrow> content rb \<noteq> f"
    using Cons.prems(2) by (simp add: cached_result_processAnnotation)
  ultimately show ?case using Cons.IH[of ?s1] by (simp add: split_beta Let_def)
qed

lemma process_all_shows:
  assumes "a \<in> set xs" and "cached_result s a = Some r"
    and "\<not> destroyed s" and "container s = Some Div"
  shows "shown (snd (process_all p xs s)) (content r) \<and>
         shown (snd (process_all p xs s)) (controls r)"
  using assms
proof (induction xs arbitrary: s)
  case Nil
  then show ?case by simp
next
  case (Cons x xs)
  let ?s1 = "snd (processAnnotation p x s)"
  show ?case
  proof (cases "x = a")
    case True
    have "shown ?s1 (content r)" "shown ?s1 (controls r)"
      using process_result_shows[OF Cons.prems(3,4), of a r] Cons.prems(2) True
      by (simp_all add: shown_def processAnnotation_dom)
    then show ?thesis by (simp add: split_beta Let_def process_all_shown)
  next
    case False
    with Cons.prems(1) have "a \<in> set xs" by simp
    moreover have "cached_result ?s1 a = Some r"
      using Cons.prems(2) by (simp add: cached_result_processAnnotation)
    moreover have "\<not> destroyed ?s1" "container ?s1 = Some Div"
      using Cons.prems(3,4) by (simp_all add: processAnnotation_fields)
    ultimately show ?thesis using Cons.IH[of ?s1] by (simp add: split_beta Let_def)
  qed
qed

lemma process_all_places:
  assumes "a \<in> set xs" and "cached_result s a = Some r"
    and "\<not> destroyed s" and "container s = Some Div"
    and "\<forall>b\<in>set xs. \<forall>rb. cached_result s b = Some rb \<longrightarrow>
           controls rb \<noteq> content r \<and> content rb \<noteq> controls r"
  shows "Fragment (content r) \<in> set (children (div_el (snd (process_all p xs s)))) \<and>
         controls r \<in> set (svg (snd (process_all p xs s)))"
  using assms
proof (induction xs arbitrary: s)
  case Nil
  then show ?case by simp
next
  case (Cons x xs)
  let ?s1 = "snd (processAnnotation p x s)"
  have rest: "\<forall>b\<in>set xs. \<forall>rb. cached_result ?s1 b = Some rb \<longrightarrow>
           controls rb \<noteq> content r \<and> content rb \<noteq> controls r"
    using Cons.prems(5) by (simp add: cached_result_processAnnotation)
  show ?case
  proof (cases "x = a")
    case True
    from Cons.prems(2,5) True have ne: "controls r \<noteq> content r" by auto
    have "Fragment (content r) \<in> set (children (div_el ?s1))" "controls r \<in> set (svg ?s1)"
      using process_result_places[OF Cons.prems(3,4), of r a] Cons.prems(2) True ne
      by (simp_all add: processAnnotation_dom)
    with rest process_all_keeps_child[of "content r" ?s1 xs p]
      process_all_keeps_svg[of "controls r" ?s1 xs p]
    show ?thesis by (simp add: split_beta Let_def)
  next
    case False
    with Cons.prems(1) have "a \<in> set xs" by simp
    moreover have "cached_result ?s1 a = Some r"
      using Cons.prems(2) by (simp add: cached_result_processAnnotation)
    moreover have "\<not> destroyed ?s1" "container ?s1 = Some Div"
      using Cons.prems(3,4) by (simp_all add: processAnnotation_fields)
    ultimately show ?thesis using Cons.IH[of ?s1] rest by (simp add: split_beta Let_def)
  qed
qed

lemma tracking_cached_pass:
  "svg tracking_cached = []"
  "children (div_el tracking_cached) = []"
  "\<not> deleted (entity tracking_cached 1)"
  "\<not> deleted (entity tracking_cached 2)"
  "cached_result tracking_cached 1 = Some result_1"
  "cached_result tracking_cached 2 = None"
  by (simp_all add: eval_defs cached_result_def)

lemma tracking_cached_after:
  "svg (the (step tracking_cached (FetchSettles 1 (FetchList [1, 2])))) = [10]"
  "children (div_el (the (step tracking_cached (FetchSettles 1 (FetchList [1, 2]))))) = [Fragment 11]"
  "tasks (the (step tracking_cached (FetchSettles 1 (FetchList [1, 2])))) = [(1, 2)]"
  by (simp_all add: eval_defs)

section \<open>The claims\<close>

text \<open>
  C1. The tracked set need not be a subset of the annotation list fetched most recently:
  nothing but \<open>destroy()\<close> removes an entity from it, so an entity tracked by an
  earlier pass stays when a later fetch omits it. What holds at every point of every
  execution of a constructed overlay: the tracked set is a subset of the annotations
  fetched for the page so far, in the latest fetch or an earlier one, and once
  \<open>destroy()\<close> has been called the tracked set is empty.
\<close>

theorem tracked_subset_of_fetched:
  assumes "constructor service page dimensions = Inr s0" and "run s0 tr = Some s"
  shows "rendered s \<subseteq> fetched_ever tr \<and> (CallDestroy \<in> set tr \<longrightarrow> rendered s = {})"
proof -
  from assms(1) have "rendered s0 \<subseteq> {} \<and> (\<forall>t\<in>set (tasks s0). snd t \<in> {})"
    by (auto simp: constructor_def split: if_splits)
  from fetched_run[OF this assms(2)] have 1: "rendered s \<subseteq> fetched_ever tr" by simp
  have "consistent s" using consistent_run[OF consistent_constructor[OF assms(1)] assms(2)] .
  with destroyed_after_destroy[OF assms(2)] have "CallDestroy \<in> set tr \<longrightarrow> rendered s = {}"
    by (auto simp: consistent_def)
  with 1 show ?thesis by simp
qed

theorem tracked_subset_of_fetched_witness:
  "run example_overlay (pass_completed @ second_pass) \<noteq> None \<and>
   rendered (the (run example_overlay (pass_completed @ second_pass)))
     \<subseteq> fetched_ever (pass_completed @ second_pass) \<and>
   run example_overlay (pass_completed @ [CallDestroy]) \<noteq> None \<and>
   CallDestroy \<in> set (pass_completed @ [CallDestroy]) \<and>
   rendered (the (run example_overlay (pass_completed @ [CallDestroy]))) = {}"
proof -
  from run_second_pass have
    1: "run example_overlay (pass_completed @ second_pass) =
          Some (the (run example_overlay (pass_completed @ second_pass)))" and
    2: "run example_overlay (pass_completed @ [CallDestroy]) =
          Some (the (run example_overlay (pass_completed @ [CallDestroy])))"
    by simp_all
  from tracked_subset_of_fetched[OF example_constructed 1]
    tracked_subset_of_fetched[OF example_constructed 2] run_second_pass
  show ?thesis by simp
qed

text \<open>
  C1, as stated, fails: after a completed pass over the annotations 1 and 2 and a
  second \<open>appendAsync\<close> whose fetch delivers annotation 1 only, the tracked set is
  \<open>{1, 2}\<close> and the list fetched last is \<open>[1]\<close>.
\<close>

theorem tracked_superset_counterexample:
  "constructor (Some example_service) (Some example_page) (Some example_dimensions) =
     Inr example_overlay \<and>
   map_option rendered (run example_overlay (pass_completed @ second_pass)) = Some {1, 2} \<and>
   last_fetched [] (pass_completed @ second_pass) = [1] \<and>
   \<not> {1, 2} \<subseteq> set [1 :: nat]"
  by (simp add: example_constructed) (simp add: eval_defs insert_commute)

text \<open>
  C2. When \<open>getPageAnnotationsAsync\<close> resolves with null, the pass is claimed to
  treat it as an empty list and to return true. The code calls \<open>.filter\<close> on the
  awaited value before \<open>|| []\<close> applies, so the pass throws a \<open>TypeError\<close> instead, and
  \<open>appendAsync\<close> rejects with it.
\<close>

theorem null_fetch_throws:
  "map_option frames (run example_overlay [CallAppendAsync 7, FetchSettles 0 FetchNull]) =
     Some [Returned (Inl TypeError)] \<and>
   map_option frames
     (run example_overlay [CallAppendAsync 7, FetchSettles 0 FetchNull, AppendResumes 0]) =
     Some [Settled (Some TypeError)]"
  by (simp add: eval_defs)

text \<open>
  C3. Once \<open>destroy()\<close> has run, a render that is still awaited runs to completion
  (its continuation is taken and the task is gone), and whatever it resolves with is
  discarded: the tracked set stays empty, and the svg surface and the container keep
  the children they had when \<open>destroy()\<close> was called. This holds at any later moment
  \<open>s1\<close>, whatever else has happened in between.
\<close>

theorem late_render_discarded:
  assumes "run (destroy s) tr = Some s1" and "k < length (tasks s1)"
  shows "\<exists>s2. step s1 (RenderSettles k (RenderResolves r)) = Some s2 \<and>
           tasks s2 = remove_nth k (tasks s1) \<and>
           rendered s2 = {} \<and> svg s2 = svg s \<and> children (div_el s2) = children (div_el s) \<and>
           docService s2 = docService s1"
proof -
  have r1: "released s1" "svg s1 = svg (destroy s)" "div_el s1 = div_el (destroy s)"
    using released_run[OF released_destroy assms(1)] by simp_all
  have d: "svg (destroy s) = svg s" "children (div_el (destroy s)) = children (div_el s)"
    by (simp_all add: destroy_def Let_def set_entities_def remove_def container_remove_def
        split: option.splits element_ref.splits)
  let ?s2 = "render_continuation k (RenderResolves r) s1"
  have st: "step s1 (RenderSettles k (RenderResolves r)) = Some ?s2"
    using assms(2) by simp
  have "released ?s2" "svg ?s2 = svg s1" "div_el ?s2 = div_el s1"
    using released_step[OF r1(1) st] by simp_all
  moreover have "tasks ?s2 = remove_nth k (tasks s1)" "docService ?s2 = docService s1"
    using r1(1)
    by (auto simp: released_def render_continuation_def process_result_destroyed reject_def
        split_beta Let_def)
  ultimately show ?thesis using st r1 d by (simp add: released_def)
qed

theorem late_render_discarded_witness:
  "run (destroy rendering_both) [RenderSettles 0 (RenderResolves (Some result_1))] =
     Some destroyed_rendering \<and>
   0 < length (tasks destroyed_rendering) \<and>
   (\<exists>s2. step destroyed_rendering (RenderSettles 0 (RenderResolves (Some result_2))) = Some s2 \<and>
         tasks s2 = [] \<and> rendered s2 = {} \<and> svg s2 = [] \<and> children (div_el s2) = [])"
proof -
  have k: "0 < length (tasks destroyed_rendering)" by (simp add: destroyed_rendering_facts)
  from late_render_discarded[OF run_destroyed_rendering k, of "Some result_2"]
    run_destroyed_rendering k
  show ?thesis by (simp add: rendering_both_facts destroyed_rendering_facts remove_nth_def)
qed

text \<open>
  C4. At any moment after \<open>destroy()\<close>, a call of \<open>appendAsync\<close> returns with the
  state unchanged, \<open>renderAnnotationsAsync\<close> returns false with the state unchanged, and
  \<open>remove\<close> changes nothing but the registration of the bus listener, which it
  withdraws: the tracked set, the container reference, both surfaces, the entities and
  the pending frames stay as they are, and nothing is thrown.
\<close>

theorem operations_after_destroy:
  assumes "run (destroy s) tr = Some s'"
  shows "appendAsync h s' = s' \<and>
         renderAnnotationsAsync s' = (Returned (Inr False), s') \<and>
         remove s' = s'\<lparr>subscribed := False\<rparr>"
proof -
  have "released s'" using released_run[OF released_destroy assms] by simp
  then show ?thesis
    by (simp add: released_def appendAsync_def renderAnnotationsAsync_def remove_def
        container_remove_def)
qed

theorem operations_after_destroy_witness:
  "run (destroy rendering_both) [RenderSettles 0 (RenderResolves (Some result_1))] =
     Some destroyed_rendering \<and>
   appendAsync 7 destroyed_rendering = destroyed_rendering \<and>
   renderAnnotationsAsync destroyed_rendering = (Returned (Inr False), destroyed_rendering) \<and>
   remove destroyed_rendering = destroyed_rendering\<lparr>subscribed := False\<rparr>"
  using operations_after_destroy[OF run_destroyed_rendering, of 7] run_destroyed_rendering
  by simp

text \<open>
  C5. \<open>destroy()\<close> sets the pointer-down, pointer-enter and pointer-leave slots of every
  entity in the tracked set to null, and leaves the tracked set empty. The witness is an
  overlay that tracks the two annotations 1 and 2, with their callbacks installed.
\<close>

theorem destroy_clears_callbacks:
  "a \<in> rendered s \<Longrightarrow> callbacks_cleared (destroy s) a \<and> rendered (destroy s) = {}"
  by (simp add: callbacks_cleared_def destroy_def Let_def set_entities_def entity_def remove_def
      container_remove_def clear_callbacks_def split: option.splits element_ref.splits)

theorem destroy_clears_callbacks_witness:
  "rendered tracking_both = {1, 2} \<and>
   callbacks_installed tracking_both 1 \<and> callbacks_installed tracking_both 2 \<and>
   callbacks_cleared (destroy tracking_both) 1 \<and> callbacks_cleared (destroy tracking_both) 2 \<and>
   rendered (destroy tracking_both) = {}"
proof -
  have "1 \<in> rendered tracking_both" "2 \<in> rendered tracking_both"
    by (simp_all add: tracking_both_facts)
  from destroy_clears_callbacks[OF this(1)] destroy_clears_callbacks[OF this(2)]
    tracking_both_facts
  show ?thesis by simp
qed

text \<open>
  C6. For an entity \<open>a\<close> that is tracked when the fetch of a further pass settles:
  the pass leaves the entity, and so its three callback slots, as they are, and if the
  entity has a cached render result the pass starts no render for it. If moreover the
  fetch delivers the entity, not deleted, and the overlay is not destroyed, the pass
  appends the cached result: after the pass both fragments of the cached result are
  children of the overlay's surfaces, the content fragment in the container and the
  controls fragment in the svg surface unless a cached result appended in the same pass
  shares one of these fragments and so moves it. \<open>processAnnotation\<close> itself appends
  the cached fragments last and awaits nothing; without a cached result it starts a
  render and awaits it.
\<close>

theorem tracked_entity_not_reprocessed:
  assumes "a \<in> rendered s"
  shows "(step s (FetchSettles p (FetchList xs)) = Some s' \<longrightarrow>
            entity s' a = entity s a \<and>
            (lastRenderResult (entity s a) \<noteq> None \<longrightarrow>
               filter (\<lambda>t. snd t = a) (tasks s') = filter (\<lambda>t. snd t = a) (tasks s))) \<and>
         (step s (FetchSettles p (FetchList xs)) = Some s' \<and>
          lastRenderResult (entity s a) = Some r \<and> a \<in> set xs \<and> \<not> deleted (entity s a) \<and>
          \<not> destroyed s \<and> container s = Some Div \<longrightarrow>
            shown s' (content r) \<and> shown s' (controls r) \<and>
            ((\<forall>b\<in>set xs. \<forall>rb. \<not> deleted (entity s b) \<and> cached_result s b = Some rb \<longrightarrow>
                 controls rb \<noteq> content r \<and> content rb \<noteq> controls r) \<longrightarrow>
               Fragment (content r) \<in> set (children (div_el s')) \<and> controls r \<in> set (svg s'))) \<and>
         (lastRenderResult (entity s a) = Some r \<and> \<not> destroyed s \<and> container s = Some Div \<longrightarrow>
            tasks (snd (processAnnotation p a s)) = tasks s \<and>
            last (children (div_el (snd (processAnnotation p a s)))) = Fragment (content r) \<and>
            (controls r \<noteq> content r \<longrightarrow> last (svg (snd (processAnnotation p a s))) = controls r)) \<and>
         (lastRenderResult (entity s a) = None \<longrightarrow>
            tasks (snd (processAnnotation p a s)) = tasks s @ [(p, a)])"
proof -
  let ?ys = "filter (\<lambda>x. \<not> deleted (entity s x)) xs"
  have s': "s' = set_frame p (AwaitAll (fst (process_all p ?ys s))) (snd (process_all p ?ys s))"
    if "step s (FetchSettles p (FetchList xs)) = Some s'"
    using that by (auto simp: fetch_continuation_def split_beta Let_def split: if_splits)
  have 1: "step s (FetchSettles p (FetchList xs)) = Some s' \<longrightarrow>
            entity s' a = entity s a \<and>
            (lastRenderResult (entity s a) \<noteq> None \<longrightarrow>
               filter (\<lambda>t. snd t = a) (tasks s') = filter (\<lambda>t. snd t = a) (tasks s))"
  proof
    assume st: "step s (FetchSettles p (FetchList xs)) = Some s'"
    have e: "entity s' a = entity s a"
      unfolding s'[OF st] using assms
      by (simp add: entity_def set_frame_def process_all_entity[unfolded entity_def])
    have t: "lastRenderResult (entity s a) \<noteq> None \<longrightarrow>
               filter (\<lambda>t. snd t = a) (tasks s') = filter (\<lambda>t. snd t = a) (tasks s)"
      unfolding s'[OF st] using assms
      by (auto simp: set_frame_def process_all_tasks filter_map o_def filter_empty_conv)
    from e t show "entity s' a = entity s a \<and>
            (lastRenderResult (entity s a) \<noteq> None \<longrightarrow>
               filter (\<lambda>t. snd t = a) (tasks s') = filter (\<lambda>t. snd t = a) (tasks s))" by simp
  qed
  have 2: "step s (FetchSettles p (FetchList xs)) = Some s' \<and>
          lastRenderResult (entity s a) = Some r \<and> a \<in> set xs \<and> \<not> deleted (entity s a) \<and>
          \<not> destroyed s \<and> container s = Some Div \<longrightarrow>
            shown s' (content r) \<and> shown s' (controls r) \<and>
            ((\<forall>b\<in>set xs. \<forall>rb. \<not> deleted (entity s b) \<and> cached_result s b = Some rb \<longrightarrow>
                 controls rb \<noteq> content r \<and> content rb \<noteq> controls r) \<longrightarrow>
               Fragment (content r) \<in> set (children (div_el s')) \<and> controls r \<in> set (svg s'))"
  proof
    assume h: "step s (FetchSettles p (FetchList xs)) = Some s' \<and>
          lastRenderResult (entity s a) = Some r \<and> a \<in> set xs \<and> \<not> deleted (entity s a) \<and>
          \<not> destroyed s \<and> container s = Some Div"
    then have st: "step s (FetchSettles p (FetchList xs)) = Some s'"
      and a: "a \<in> set ?ys" and c: "cached_result s a = Some r"
      and nd: "\<not> destroyed s" and co: "container s = Some Div"
      using assms by (simp_all add: cached_result_def)
    have dom: "svg s' = svg (snd (process_all p ?ys s))"
      "div_el s' = div_el (snd (process_all p ?ys s))"
      unfolding s'[OF st] by (simp_all add: set_frame_def)
    from process_all_shows[OF a c nd co, of p] dom
    have sh: "shown s' (content r) \<and> shown s' (controls r)" by (simp add: shown_def)
    have pl: "(\<forall>b\<in>set xs. \<forall>rb. \<not> deleted (entity s b) \<and> cached_result s b = Some rb \<longrightarrow>
                 controls rb \<noteq> content r \<and> content rb \<noteq> controls r) \<longrightarrow>
               Fragment (content r) \<in> set (children (div_el s')) \<and> controls r \<in> set (svg s')"
    proof
      assume "\<forall>b\<in>set xs. \<forall>rb. \<not> deleted (entity s b) \<and> cached_result s b = Some rb \<longrightarrow>
                 controls rb \<noteq> content r \<and> content rb \<noteq> controls r"
      then have "\<forall>b\<in>set ?ys. \<forall>rb. cached_result s b = Some rb \<longrightarrow>
           controls rb \<noteq> content r \<and> content rb \<noteq> controls r" by auto
      from process_all_places[OF a c nd co this, of p] dom
      show "Fragment (content r) \<in> set (children (div_el s')) \<and> controls r \<in> set (svg s')"
        by simp
    qed
    from sh pl show "shown s' (content r) \<and> shown s' (controls r) \<and>
            ((\<forall>b\<in>set xs. \<forall>rb. \<not> deleted (entity s b) \<and> cached_result s b = Some rb \<longrightarrow>
                 controls rb \<noteq> content r \<and> content rb \<noteq> controls r) \<longrightarrow>
               Fragment (content r) \<in> set (children (div_el s')) \<and> controls r \<in> set (svg s'))"
      by simp
  qed
  have 3: "lastRenderResult (entity s a) = Some r \<and> \<not> destroyed s \<and> container s = Some Div \<longrightarrow>
            tasks (snd (processAnnotation p a s)) = tasks s \<and>
            last (children (div_el (snd (processAnnotation p a s)))) = Fragment (content r) \<and>
            (controls r \<noteq> content r \<longrightarrow> last (svg (snd (processAnnotation p a s))) = controls r)"
    using assms
    by (auto simp: processAnnotation_def process_result_def svg_append_def container_append_def
        dom_append_def dom_remove_def Let_def)
  have 4: "lastRenderResult (entity s a) = None \<longrightarrow>
            tasks (snd (processAnnotation p a s)) = tasks s @ [(p, a)]"
    using assms by (simp add: processAnnotation_tasks)
  from 1 2 3 4 show ?thesis by blast
qed

theorem tracked_entity_not_reprocessed_witness:
  "1 \<in> rendered tracking_cached \<and>
   lastRenderResult (entity tracking_cached 1) = Some result_1 \<and>
   svg tracking_cached = [] \<and> children (div_el tracking_cached) = [] \<and>
   step tracking_cached (FetchSettles 1 (FetchList [1, 2])) \<noteq> None \<and>
   entity (the (step tracking_cached (FetchSettles 1 (FetchList [1, 2])))) 1 =
     entity tracking_cached 1 \<and>
   filter (\<lambda>t. snd t = 1) (tasks (the (step tracking_cached (FetchSettles 1 (FetchList [1, 2]))))) =
     [] \<and>
   Fragment (content result_1) \<in>
     set (children (div_el (the (step tracking_cached (FetchSettles 1 (FetchList [1, 2])))))) \<and>
   controls result_1 \<in> set (svg (the (step tracking_cached (FetchSettles 1 (FetchList [1, 2]))))) \<and>
   children (div_el (the (step tracking_cached (FetchSettles 1 (FetchList [1, 2]))))) =
     [Fragment 11] \<and>
   svg (the (step tracking_cached (FetchSettles 1 (FetchList [1, 2])))) = [10] \<and>
   last (children (div_el (snd (processAnnotation 1 1 tracking_cached)))) = Fragment 11 \<and>
   last (svg (snd (processAnnotation 1 1 tracking_cached))) = 10 \<and>
   2 \<in> rendered tracking_cached \<and>
   lastRenderResult (entity tracking_cached 2) = None \<and>
   tasks (snd (processAnnotation 1 2 tracking_cached)) = [(1, 2)]"
proof -
  let ?s' = "the (step tracking_cached (FetchSettles 1 (FetchList [1, 2])))"
  from tracking_cached_facts(6) have
    st: "step tracking_cached (FetchSettles 1 (FetchList [1, 2])) = Some ?s'"
    by simp
  have nc: "\<forall>b\<in>set [1, 2]. \<forall>rb. \<not> deleted (entity tracking_cached b) \<and>
              cached_result tracking_cached b = Some rb \<longrightarrow>
              controls rb \<noteq> content result_1 \<and> content rb \<noteq> controls result_1"
    using tracking_cached_pass by (simp add: result_1_def)
  have in1: "(1::nat) \<in> set [1, 2]" by simp
  note t1 = tracked_entity_not_reprocessed[OF tracking_cached_facts(1),
      where p = 1 and xs = "[1, 2]" and r = result_1 and s' = ?s']
  note t2 = tracked_entity_not_reprocessed[OF tracking_cached_facts(2),
      where p = 1 and xs = "[1, 2]" and r = result_1 and s' = ?s']
  from t1 st tracking_cached_facts tracking_cached_pass(3) in1 nc
  have a: "entity ?s' 1 = entity tracking_cached 1"
    "filter (\<lambda>t. snd t = 1) (tasks ?s') = filter (\<lambda>t. snd t = 1) (tasks tracking_cached)"
    "Fragment (content result_1) \<in> set (children (div_el ?s'))"
    "controls result_1 \<in> set (svg ?s')"
    "last (children (div_el (snd (processAnnotation 1 1 tracking_cached)))) =
       Fragment (content result_1)"
    "last (svg (snd (processAnnotation 1 1 tracking_cached))) = controls result_1"
    by (simp_all add: result_1_def)
  from t2 tracking_cached_facts
  have b: "tasks (snd (processAnnotation 1 2 tracking_cached)) = tasks tracking_cached @ [(1, 2)]"
    by simp
  from a b st tracking_cached_facts tracking_cached_pass tracking_cached_after
  show ?thesis by (simp add: result_1_def)
qed




text \<open>
  C8. When the fetch of an \<open>appendAsync\<close> call throws, the pass does not return false:
  it rejects with the error of the fetch, \<open>appendAsync\<close> rejects with the same error,
  the container stays attached to the host it was appended to, and the call registers no
  bus listener.
\<close>

theorem fetch_rejection_propagates:
  assumes "\<not> destroyed s" and "container s = Some Div"
  shows "\<exists>s1 s2.
           run s [CallAppendAsync h, FetchSettles (length (frames s)) (FetchRejects r)] = Some s1 \<and>
           frames s1 ! length (frames s) = Returned (Inl (Rejection r)) \<and>
           step s1 (AppendResumes (length (frames s))) = Some s2 \<and>
           frames s2 ! length (frames s) = Settled (Some (Rejection r)) \<and>
           parent (div_el s2) = Some h \<and> subscribed s2 = subscribed s"
  using assms
  by (simp add: appendAsync_def renderAnnotationsAsync_def clear_def fetch_continuation_def
      set_frame_def appendAsync_continuation_def)

theorem fetch_rejection_propagates_witness:
  "\<not> destroyed example_overlay \<and> container example_overlay = Some Div \<and>
   (\<exists>s1 s2.
      run example_overlay [CallAppendAsync 7, FetchSettles 0 (FetchRejects 3)] = Some s1 \<and>
      frames s1 ! 0 = Returned (Inl (Rejection 3)) \<and>
      step s1 (AppendResumes 0) = Some s2 \<and>
      frames s2 ! 0 = Settled (Some (Rejection 3)) \<and>
      parent (div_el s2) = Some 7 \<and> \<not> subscribed s2)"
proof -
  have h: "\<not> destroyed example_overlay" "container example_overlay = Some Div"
    "frames example_overlay = []" "\<not> subscribed example_overlay"
    by (simp_all add: example_overlay_def)
  from fetch_rejection_propagates[OF h(1,2), of 7 3] h show ?thesis by simp
qed

text \<open>
  C8, as stated, fails: on a new overlay appended to host 7 whose fetch rejects, the
  pass settles with the rejection and not with false, and the container still has
  host 7 as its parent after \<open>appendAsync\<close> has settled.
\<close>

theorem fetch_rejection_counterexample:
  "map_option frames (run example_overlay [CallAppendAsync 7, FetchSettles 0 (FetchRejects 3)]) =
     Some [Returned (Inl (Rejection 3))] \<and>
   Returned (Inl (Rejection 3)) \<noteq> Returned (Inr False) \<and>
   map_option (parent \<circ> div_el)
     (run example_overlay
        [CallAppendAsync 7, FetchSettles 0 (FetchRejects 3), AppendResumes 0]) = Some (Some 7) \<and>
   Some (7 :: nat) \<noteq> None"
  by (simp add: eval_defs)

text \<open>
  C9. Constructing a \<open>PageAnnotationView\<close> with the document service, the page
  descriptor or the page dimensions missing fails at once with the constructor's
  argument error (\<open>Error("Required argument not found")\<close>); with all three present
  construction succeeds.
\<close>

theorem constructor_checks_arguments:
  "(service = None \<or> page = None \<or> dimensions = None \<longrightarrow>
      constructor service page dimensions = Inl RequiredArgumentNotFound) \<and>
   (service \<noteq> None \<and> page \<noteq> None \<and> dimensions \<noteq> None \<longrightarrow>
      (\<exists>s. constructor service page dimensions = Inr s))"
  by (simp add: constructor_def)

theorem constructor_checks_arguments_witness:
  "constructor None (Some example_page) (Some example_dimensions) = Inl RequiredArgumentNotFound \<and>
   constructor (Some example_service) None (Some example_dimensions) = Inl RequiredArgumentNotFound \<and>
   constructor (Some example_service) (Some example_page) None = Inl RequiredArgumentNotFound \<and>
   isl (constructor (Some example_service) (Some example_page) (Some example_dimensions)) = False"
  using constructor_checks_arguments[of None "Some example_page" "Some example_dimensions"]
    constructor_checks_arguments[of "Some example_service" None "Some example_dimensions"]
    constructor_checks_arguments[of "Some example_service" "Some example_page" None]
    constructor_checks_arguments[of "Some example_service" "Some example_page"
      "Some example_dimensions"]
  by auto

text \<open>
  C10. An entity that is tracked at some point of an execution of a constructed overlay
  is still tracked, with its three callbacks installed, after any further events among
  which there is no \<open>destroy()\<close>: calls of \<open>appendAsync\<close> and \<open>remove\<close>, fetches that
  omit the entity, changes of its deleted flag, renders settling. \<open>clear()\<close> leaves the
  tracked set as it is.
\<close>

theorem tracked_until_destroy:
  assumes "constructor service page dimensions = Inr s0"
    and "run s0 tr = Some s" and "a \<in> rendered s"
    and "run s tr' = Some s'" and "CallDestroy \<notin> set tr'"
  shows "a \<in> rendered s' \<and> callbacks_installed s' a \<and>
         (\<forall>s1. clear s' = Inr s1 \<longrightarrow> rendered s1 = rendered s')"
proof -
  have "consistent s" using consistent_run[OF consistent_constructor[OF assms(1)] assms(2)] .
  with assms(3) have nd: "\<not> destroyed s" by (auto simp: consistent_def split: if_splits)
  from tracked_mono_run[OF assms(4,5)] assms(3) nd
  have a: "a \<in> rendered s'" and nd': "\<not> destroyed s'" by auto
  have "tracked_installed s"
    using tracked_installed_run[OF tracked_installed_constructor[OF assms(1)] assms(2)] .
  then have "tracked_installed s'" using assms(4) by (rule tracked_installed_run)
  with a nd' have "callbacks_installed s' a" by (auto simp: tracked_installed_def)
  moreover have "\<forall>s1. clear s' = Inr s1 \<longrightarrow> rendered s1 = rendered s'"
    by (auto simp: clear_def split: option.splits element_ref.splits)
  ultimately show ?thesis using a by simp
qed

theorem tracked_until_destroy_witness:
  "run example_overlay pass_completed = Some tracking_both \<and>
   2 \<in> rendered tracking_both \<and>
   run tracking_both second_pass_deleted \<noteq> None \<and>
   CallDestroy \<notin> set second_pass_deleted \<and>
   2 \<notin> fetched_ever second_pass_deleted \<and>
   deleted (entity (the (run tracking_both second_pass_deleted)) 2) \<and>
   2 \<in> rendered (the (run tracking_both second_pass_deleted)) \<and>
   callbacks_installed (the (run tracking_both second_pass_deleted)) 2"
proof -
  have a: "2 \<in> rendered tracking_both" by (simp add: tracking_both_facts)
  from run_second_pass_deleted(1) have
    r: "run tracking_both second_pass_deleted = Some (the (run tracking_both second_pass_deleted))"
    by simp
  from tracked_until_destroy[OF example_constructed run_pass_completed a r
      run_second_pass_deleted(4)] a run_second_pass_deleted run_pass_completed
  show ?thesis by simp
qed

end
